theory Spec2Isabelle
  imports Main "HOL-Library.Word" "HOL-Library.Multiset" "HOL-Library.Code_Target_Nat"
begin

unbundle bit_operations_syntax

section \<open>Data model\<close>

text \<open>
  A Go \<^verbatim>\<open>net.IP\<close> and a \<^verbatim>\<open>net.IPMask\<close> are byte slices; a nil slice behaves as the
  empty one for \<^verbatim>\<open>len\<close> and indexing, so both are lists of bytes.  The code never writes
  into the bytes of an address it was given (\<^verbatim>\<open>addOne\<close>, \<^verbatim>\<open>lastIp\<close> and \<^verbatim>\<open>xor\<close> fill a
  fresh slice), so addresses are values.
\<close>

type_synonym byte = "8 word"
type_synonym IP = "byte list"
type_synonym IPMask = "byte list"

text \<open>\<^verbatim>\<open>net.IPNet\<close>: a base address and a mask.\<close>

record IPNet =
  IP :: IP
  Mask :: IPMask

text \<open>\<^verbatim>\<open>type Range struct { start net.IP; end net.IP }\<close>\<close>

record Range =
  start :: IP
  end' :: IP

text \<open>The only run-time failure of the code: indexing a slice out of range.\<close>

datatype error = IndexOutOfRange

section \<open>Library functions used by the code\<close>

text \<open>\<^verbatim>\<open>bytes.Compare\<close>: lexicographic comparison of byte slices, result -1, 0 or 1.\<close>

fun bytes_Compare :: "byte list \<Rightarrow> byte list \<Rightarrow> int" where
  "bytes_Compare [] [] = 0"
| "bytes_Compare [] (y # ys) = -1"
| "bytes_Compare (x # xs) [] = 1"
| "bytes_Compare (x # xs) (y # ys) =
     (if x < y then -1 else if y < x then 1 else bytes_Compare xs ys)"

text \<open>\<^verbatim>\<open>bits.Len8\<close>: the number of bits needed to represent the byte, 0 for 0.\<close>

fun Len :: "nat \<Rightarrow> nat" where
  "Len n = (if n = 0 then 0 else Suc (Len (n div 2)))"

declare Len.simps [simp del]

text \<open>\<^verbatim>\<open>bits.LeadingZeros8(x) = 8 - Len8(x)\<close>.\<close>

definition LeadingZeros8 :: "byte \<Rightarrow> int" where
  "LeadingZeros8 x = 8 - int (Len (unat x))"

text \<open>The number of trailing zero bits of a positive number.\<close>

fun Ntz :: "nat \<Rightarrow> nat" where
  "Ntz n = (if n = 0 \<or> odd n then 0 else Suc (Ntz (n div 2)))"

declare Ntz.simps [simp del]

text \<open>\<^verbatim>\<open>bits.TrailingZeros8\<close>: the number of trailing zero bits, 8 for 0.\<close>

definition TrailingZeros8 :: "byte \<Rightarrow> int" where
  "TrailingZeros8 x = (if x = 0 then 8 else int (Ntz (unat x)))"

text \<open>
  \<^verbatim>\<open>net.CIDRMask(ones, bits)\<close>: nil unless \<^verbatim>\<open>bits\<close> is 32 or 128 and
  \<^verbatim>\<open>0 <= ones <= bits\<close>; otherwise \<^verbatim>\<open>bits/8\<close> bytes, the first \<^verbatim>\<open>ones\<close> bits set.
  The loop fills byte after byte: \<^verbatim>\<open>0xff\<close> while at least 8 ones remain, then
  \<^verbatim>\<open>^byte(0xff >> n)\<close> and zeros.
\<close>

fun CIDRMask_loop :: "nat \<Rightarrow> nat \<Rightarrow> IPMask" where
  "CIDRMask_loop 0 n = []"
| "CIDRMask_loop (Suc l) n =
     (if 8 \<le> n then 0xff # CIDRMask_loop l (n - 8)
      else NOT (drop_bit n (0xff :: byte)) # CIDRMask_loop l 0)"

definition CIDRMask :: "int \<Rightarrow> int \<Rightarrow> IPMask" where
  "CIDRMask ones bits =
     (if bits \<noteq> 8 * 4 \<and> bits \<noteq> 8 * 16 then []
      else if ones < 0 \<or> ones > bits then []
      else CIDRMask_loop (nat (bits div 8)) (nat ones))"

section \<open>Helper functions of go-cidr-pkg.go\<close>

text \<open>
  \<^verbatim>\<open>addOne\<close>: copy, then from the last byte down increment and stop at the first byte
  that did not wrap to 0.  The counter of \<open>addOne_loop\<close> is the Go index plus one.
\<close>

fun addOne_loop :: "IP \<Rightarrow> nat \<Rightarrow> IP" where
  "addOne_loop result 0 = result"
| "addOne_loop result (Suc i) =
     (let result' = result[i := result ! i + 1]
      in if result' ! i \<noteq> 0 then result' else addOne_loop result' i)"

definition addOne :: "IP \<Rightarrow> IP" where
  "addOne ip = addOne_loop ip (length ip)"

text \<open>
  \<^verbatim>\<open>lastIp\<close>: \<^verbatim>\<open>ip[i] |= ^mask[i]\<close> for every index of the address; the read of
  \<^verbatim>\<open>mask[i]\<close> panics when the mask is shorter than the address.
\<close>

definition lastIp :: "IPNet \<Rightarrow> error + IP" where
  "lastIp ipNet =
     (if length (Mask ipNet) < length (IP ipNet) then Inl IndexOutOfRange
      else Inr (map2 (\<lambda>b m. b OR NOT m) (IP ipNet) (Mask ipNet)))"

text \<open>\<^verbatim>\<open>prefixLength\<close>: scan from index 0 for the first non-zero byte.\<close>

function prefixLength_loop :: "IP \<Rightarrow> nat \<Rightarrow> int" where
  "prefixLength_loop x i =
     (if i < length x
      then (if x ! i \<noteq> 0 then int i * 8 + LeadingZeros8 (x ! i)
            else prefixLength_loop x (i + 1))
      else int (length x) * 8)"
  by pat_completeness auto
termination
  by (relation "measure (\<lambda>(x, i). length x - i)") auto

declare prefixLength_loop.simps [simp del]

definition prefixLength :: "IP \<Rightarrow> int" where
  "prefixLength x = prefixLength_loop x 0"

text \<open>
  \<^verbatim>\<open>trailingZeros\<close>: scan from the last index down for the first non-zero byte.  The
  counter of \<open>trailingZeros_loop\<close> is the Go index plus one.
\<close>

fun trailingZeros_loop :: "IP \<Rightarrow> nat \<Rightarrow> int" where
  "trailingZeros_loop ip 0 = int (length ip) * 8"
| "trailingZeros_loop ip (Suc i) =
     (if ip ! i \<noteq> 0
      then (int (length ip) - 1 - int i) * 8 + TrailingZeros8 (ip ! i)
      else trailingZeros_loop ip i)"

definition trailingZeros :: "IP \<Rightarrow> int" where
  "trailingZeros ip = trailingZeros_loop ip (length ip)"

text \<open>
  \<^verbatim>\<open>xor\<close>: \<^verbatim>\<open>len(a)\<close> bytes \<^verbatim>\<open>a[i] ^ b[i]\<close>; the read of \<^verbatim>\<open>b[i]\<close> panics when \<^verbatim>\<open>b\<close> is
  shorter than \<^verbatim>\<open>a\<close>.
\<close>

text \<open>(\<open>xor\<close> and \<open>lessThan\<close> are names of HOL, hence the suffix.)\<close>

definition xor_ip :: "IP \<Rightarrow> IP \<Rightarrow> error + IP" where
  "xor_ip a b =
     (if length b < length a then Inl IndexOutOfRange
      else Inr (map2 (\<lambda>x y. x XOR y) a b))"

definition lessThan_ip :: "IP \<Rightarrow> IP \<Rightarrow> bool" where
  "lessThan_ip a b = (bytes_Compare a b < 0)"

section \<open>Addresses as numbers\<close>

text \<open>
  The value of an address read as a big-endian unsigned number.  It is the yardstick of
  the properties below ("unsigned order", "the addresses of a block"); the code itself
  never computes it.
\<close>

fun val :: "IP \<Rightarrow> nat" where
  "val [] = 0"
| "val (b # bs) = unat b * 256 ^ length bs + val bs"

lemma digit_bound:
  fixes a B v p :: nat
  assumes "a < B" "v < p"
  shows "a * p + v < B * p"
proof -
  from assms(1) have "Suc a \<le> B" by simp
  then have "Suc a * p \<le> B * p" by (rule mult_le_mono1)
  with assms(2) show ?thesis by simp
qed

lemma digit_bound_Suc:
  fixes a B v p :: nat
  assumes "Suc a < B" "v < p"
  shows "Suc (a * p + v) < B * p"
proof -
  have "Suc (a * p + v) \<le> a * p + p" using assms(2) by simp
  also have "\<dots> = Suc a * p" by simp
  also have "\<dots> < B * p" using assms by (intro mult_less_mono1) simp_all
  finally show ?thesis .
qed

lemma unat_byte_lt: "unat (b :: byte) < 256"
  using unsigned_less [of b, where ?'a = nat] by simp

lemma val_lt: "val xs < 256 ^ length xs"
proof (induction xs)
  case Nil
  then show ?case by simp
next
  case (Cons b bs)
  have "unat b * 256 ^ length bs + val bs < 256 * 256 ^ length bs"
    by (rule digit_bound [OF unat_byte_lt Cons.IH])
  then show ?case by simp
qed

lemma val_append: "val (xs @ ys) = val xs * 256 ^ length ys + val ys"
  by (induction xs) (simp_all add: power_add algebra_simps)

lemma digits_less:
  fixes a b v w p :: nat
  assumes "a < b" "v < p"
  shows "a * p + v < b * p + w"
proof -
  from assms(1) have "Suc a \<le> b" by simp
  then have "Suc a * p \<le> b * p" by (rule mult_le_mono1)
  with assms(2) show ?thesis by simp
qed

text \<open>bytes.Compare on equal lengths is the comparison of the values.\<close>

lemma bytes_Compare_val:
  "length xs = length ys \<Longrightarrow>
     bytes_Compare xs ys = (if val xs < val ys then -1 else if val ys < val xs then 1 else 0)"
proof (induction xs ys rule: list_induct2)
  case Nil
  then show ?case by simp
next
  case (Cons x xs y ys)
  let ?p = "256 ^ length ys :: nat"
  have lx: "val xs < ?p" using val_lt [of xs] Cons.hyps by simp
  have ly: "val ys < ?p" using val_lt [of ys] by simp
  show ?case
  proof (cases "x < y")
    case True
    then have "unat x < unat y" by (simp add: word_less_nat_alt)
    then have "unat x * ?p + val xs < unat y * ?p + val ys"
      using lx by (rule digits_less)
    with True Cons.hyps show ?thesis by simp
  next
    case nlt: False
    show ?thesis
    proof (cases "y < x")
      case True
      then have "unat y < unat x" by (simp add: word_less_nat_alt)
      then have "unat y * ?p + val ys < unat x * ?p + val xs"
        using ly by (rule digits_less)
      with True nlt Cons.hyps show ?thesis by simp
    next
      case False
      with nlt have "x = y" by simp
      with Cons show ?thesis by simp
    qed
  qed
qed

lemma bytes_Compare_refl: "bytes_Compare xs xs = 0"
  by (induction xs) simp_all

lemma bytes_Compare_eq_0: "bytes_Compare xs ys = 0 \<Longrightarrow> xs = ys"
  by (induction xs ys rule: bytes_Compare.induct) (auto split: if_splits)

lemma val_inj: "length xs = length ys \<Longrightarrow> val xs = val ys \<Longrightarrow> xs = ys"
  using bytes_Compare_val [of xs ys] bytes_Compare_eq_0 [of xs ys] by simp

lemma Compare_less_iff:
  "length xs = length ys \<Longrightarrow> bytes_Compare xs ys < 0 \<longleftrightarrow> val xs < val ys"
  by (simp add: bytes_Compare_val)

lemma Compare_greater_iff:
  "length xs = length ys \<Longrightarrow> 0 < bytes_Compare xs ys \<longleftrightarrow> val ys < val xs"
  by (simp add: bytes_Compare_val)

lemma Compare_ge_iff:
  "length xs = length ys \<Longrightarrow> 0 \<le> bytes_Compare xs ys \<longleftrightarrow> val ys \<le> val xs"
  by (auto simp add: bytes_Compare_val)

text \<open>An address below another one that is not longer is not the all-ones address.\<close>

lemma Compare_less_not_max:
  "bytes_Compare xs ys < 0 \<Longrightarrow> length ys \<le> length xs \<Longrightarrow> Suc (val xs) < 256 ^ length xs"
proof (induction xs ys rule: bytes_Compare.induct)
  case (4 x xs y ys)
  let ?p = "256 ^ length xs :: nat"
  show ?case
  proof (cases "x < y")
    case True
    then have "unat x < unat y" by (simp add: word_less_nat_alt)
    moreover have "unat y < 256" by (rule unat_byte_lt)
    ultimately have a: "Suc (unat x) < 256" by simp
    have "Suc (unat x * ?p + val xs) < 256 * ?p"
      using a val_lt by (rule digit_bound_Suc)
    then show ?thesis by simp
  next
    case False
    with "4.prems" have eq: "\<not> y < x" and c: "bytes_Compare xs ys < 0"
      by (auto split: if_splits)
    from "4.IH" [OF False eq c] "4.prems" have "Suc (val xs) < ?p" by simp
    then have "unat x * ?p + Suc (val xs) < 256 * ?p"
      by (intro digit_bound unat_byte_lt)
    then show ?thesis by simp
  qed
qed simp_all


subsection \<open>addOne adds one modulo the width\<close>

lemma length_addOne_loop: "length (addOne_loop r n) = length r"
  by (induction r n rule: addOne_loop.induct) (simp_all add: Let_def)

lemma length_addOne [simp]: "length (addOne ip) = length ip"
  by (simp add: addOne_def length_addOne_loop)

lemma unat_byte_add1: "unat ((b :: byte) + 1) = Suc (unat b) mod 256"
  by (simp add: unat_word_ariths)

lemma unat_byte_Suc: "(b :: byte) + 1 \<noteq> 0 \<Longrightarrow> unat (b + 1) = Suc (unat b)"
proof -
  assume "b + 1 \<noteq> 0"
  then have "unat (b + 1) \<noteq> 0" by (simp add: unat_0_iff)
  then have "Suc (unat b) mod 256 \<noteq> 0" by (simp add: unat_byte_add1)
  moreover have "unat b < 256" by (rule unat_byte_lt)
  ultimately have "Suc (unat b) < 256" by (cases "unat b = 255") simp_all
  then show ?thesis by (simp add: unat_byte_add1)
qed

lemma unat_byte_wrap: "(b :: byte) + 1 = 0 \<Longrightarrow> unat b = 255"
proof -
  assume "b + 1 = 0"
  then have "unat (b + 1) = 0" by simp
  then have "Suc (unat b) mod 256 = 0" by (simp add: unat_byte_add1)
  moreover have "unat b < 256" by (rule unat_byte_lt)
  ultimately show ?thesis by (cases "unat b = 255") simp_all
qed

lemma no_carry_bound:
  fixes v p d :: nat
  assumes "v < p" "Suc d < 256"
  shows "Suc (v * 256 + d) < p * 256"
proof -
  have "Suc (v * 256 + d) < Suc v * 256" using assms(2) by simp
  also have "\<dots> \<le> p * 256" using assms(1) by (intro mult_le_mono1) simp
  finally show ?thesis .
qed

lemma carry_mod:
  fixes v p :: nat
  shows "Suc (v * 256 + 255) mod (p * 256) = (Suc v mod p) * 256"
proof -
  have "Suc (v * 256 + 255) = Suc v * 256" by simp
  then show ?thesis by (simp only: mod_mult_mult2)
qed

text \<open>The loop adds one to the number formed by the first bytes, dropping the carry.\<close>

lemma addOne_loop_val:
  "val (addOne_loop (xs @ ys) (length xs)) =
     (Suc (val xs) mod 256 ^ length xs) * 256 ^ length ys + val ys"
proof (induction xs arbitrary: ys rule: rev_induct)
  case Nil
  then show ?case by simp
next
  case (snoc b xs)
  let ?n = "length xs"
  have upd: "((xs @ [b]) @ ys)[?n := c] = xs @ c # ys" for c
    by (simp add: list_update_append)
  have nth: "((xs @ [b]) @ ys) ! ?n = b"
    by (simp add: nth_append)
  have vs: "val (xs @ [b]) = val xs * 256 + unat b"
    by (simp add: val_append)
  show ?case
  proof (cases "b + 1 = 0")
    case False
    then have u: "unat (b + 1) = Suc (unat b)" by (rule unat_byte_Suc)
    have "Suc (unat b) < 256" using unat_byte_lt [of "b + 1"] u by simp
    with val_lt [of xs] have "Suc (val xs * 256 + unat b) < 256 ^ ?n * 256"
      by (rule no_carry_bound)
    then have m: "Suc (val (xs @ [b])) mod 256 ^ length (xs @ [b]) = Suc (val xs * 256 + unat b)"
      by (simp add: vs mult.commute)
    have "addOne_loop ((xs @ [b]) @ ys) (length (xs @ [b])) = xs @ (b + 1) # ys"
      using False by (simp add: upd nth Let_def del: append_assoc)
    then have "val (addOne_loop ((xs @ [b]) @ ys) (length (xs @ [b])))
        = val xs * 256 ^ Suc (length ys) + (Suc (unat b) * 256 ^ length ys + val ys)"
      by (simp add: val_append u)
    also have "\<dots> = Suc (val xs * 256 + unat b) * 256 ^ length ys + val ys"
      by (simp add: algebra_simps)
    finally show ?thesis by (simp only: m)
  next
    case True
    then have u: "unat b = 255" by (rule unat_byte_wrap)
    have m: "Suc (val (xs @ [b])) mod 256 ^ length (xs @ [b]) = (Suc (val xs) mod 256 ^ ?n) * 256"
      using carry_mod [of "val xs" "256 ^ ?n"] by (simp add: vs u mult.commute)
    have "addOne_loop ((xs @ [b]) @ ys) (length (xs @ [b])) = addOne_loop (xs @ 0 # ys) ?n"
      using True by (simp add: upd nth Let_def del: append_assoc)
    then have "val (addOne_loop ((xs @ [b]) @ ys) (length (xs @ [b])))
        = (Suc (val xs) mod 256 ^ ?n) * 256 ^ length (0 # ys) + val (0 # ys)"
      by (simp only: snoc.IH)
    also have "\<dots> = (Suc (val xs) mod 256 ^ ?n) * 256 * 256 ^ length ys + val ys"
      by simp
    finally show ?thesis by (simp only: m)
  qed
qed

lemma val_addOne: "val (addOne ip) = Suc (val ip) mod 256 ^ length ip"
  using addOne_loop_val [of ip "[]"] by (simp add: addOne_def)

lemma val_addOne_no_wrap: "Suc (val ip) < 256 ^ length ip \<Longrightarrow> val (addOne ip) = Suc (val ip)"
  by (simp add: val_addOne)

subsection \<open>lastIp does not go below the base\<close>

lemma val_mono: "list_all2 (\<le>) xs ys \<Longrightarrow> val xs \<le> val ys"
proof (induction xs ys rule: list_all2_induct)
  case Nil
  then show ?case by simp
next
  case (Cons x xs y ys)
  from Cons.hyps(1) have "unat x \<le> unat y" by (simp add: word_le_nat_alt)
  then have "unat x * 256 ^ length ys \<le> unat y * 256 ^ length ys" by (rule mult_le_mono1)
  then have "unat x * 256 ^ length ys + val xs \<le> unat y * 256 ^ length ys + val ys"
    using Cons.IH by (rule add_mono)
  moreover have "length xs = length ys" using Cons.hyps(2) by (rule list_all2_lengthD)
  ultimately show ?case by simp
qed

lemma lastIp_Inr:
  "lastIp n = Inr tmp \<Longrightarrow> length tmp = length (IP n) \<and> val (IP n) \<le> val tmp"
proof -
  assume a: "lastIp n = Inr tmp"
  then have len: "length (IP n) \<le> length (Mask n)"
    and tmp: "tmp = map2 (\<lambda>b m. b OR NOT m) (IP n) (Mask n)"
    by (auto simp: lastIp_def split: if_splits)
  from len have l: "length tmp = length (IP n)" by (simp add: tmp)
  have "list_all2 (\<le>) (IP n) tmp"
    unfolding list_all2_conv_all_nth
  proof (intro conjI allI impI)
    show "length (IP n) = length tmp" using l by simp
  next
    fix i assume "i < length (IP n)"
    then show "IP n ! i \<le> tmp ! i" using len by (simp add: tmp le_word_or2)
  qed
  then show ?thesis using l by (simp add: val_mono)
qed

section \<open>Range.ToIpNets\<close>

text \<open>
  The loop of \<^verbatim>\<open>ToIpNets\<close>, with \<^verbatim>\<open>ipBits\<close>, \<^verbatim>\<open>s\<close>, \<^verbatim>\<open>end\<close> and \<^verbatim>\<open>result\<close> as its
  state.  A panic of \<^verbatim>\<open>xor\<close> or \<^verbatim>\<open>lastIp\<close> ends the run with the error.  The loop
  terminates on every input: a further round is only taken when the top address of the
  block just emitted is below \<^verbatim>\<open>end\<close>, and then the next \<^verbatim>\<open>s\<close> is larger than the
  current one.
\<close>

function ToIpNets_loop :: "int \<Rightarrow> IP \<Rightarrow> IP \<Rightarrow> IPNet list \<Rightarrow> error + IPNet list" where
  "ToIpNets_loop ipBits s e result =
     (if bytes_Compare s e > 0 then Inr result
      else case xor_ip (addOne e) s of
             Inl err \<Rightarrow> Inl err
           | Inr x \<Rightarrow>
               let cidr = max (prefixLength x) (ipBits - trailingZeros s);
                   ipNet = \<lparr>IP = s, Mask = CIDRMask cidr ipBits\<rparr>;
                   result' = result @ [ipNet]
               in case lastIp ipNet of
                    Inl err \<Rightarrow> Inl err
                  | Inr tmp \<Rightarrow>
                      if \<not> lessThan_ip tmp e then Inr result'
                      else ToIpNets_loop ipBits (addOne tmp) e result')"
  by pat_completeness auto
termination
proof (relation "measure (\<lambda>(ipBits, s, e, result). 256 ^ length s - val s)")
  show "wf (measure (\<lambda>(ipBits, s, e, result). 256 ^ length s - val s))" by simp
next
  fix ipBits :: int and s e :: IP and result :: "IPNet list" and x xa xb xc xd
  assume x: "xor_ip (addOne e) s = Inr x"
    and xb: "xb = \<lparr>IP = s, Mask = CIDRMask xa ipBits\<rparr>"
    and tmp: "lastIp xb = Inr xd"
    and lt: "\<not> \<not> lessThan_ip xd e"
  from x have le: "length e \<le> length s" by (auto simp: xor_ip_def split: if_splits)
  from lastIp_Inr [OF tmp] xb have l: "length xd = length s" and v: "val s \<le> val xd" by simp_all
  from lt have "bytes_Compare xd e < 0" by (simp add: lessThan_ip_def)
  then have nm: "Suc (val xd) < 256 ^ length xd" using le l by (intro Compare_less_not_max) simp_all
  then have "val (addOne xd) = Suc (val xd)" by (rule val_addOne_no_wrap)
  with v nm l show "((ipBits, addOne xd, e, xc), ipBits, s, e, result)
       \<in> measure (\<lambda>(ipBits, s, e, result). 256 ^ length s - val s)"
    by simp
qed

definition ToIpNets :: "Range \<Rightarrow> error + IPNet list" where
  "ToIpNets r = ToIpNets_loop (int (length (start r)) * 8) (start r) (end' r) []"


text \<open>
  \<^verbatim>\<open>IpWrapper.ToRange\<close> and \<^verbatim>\<open>IpNetWrapper.ToRange\<close> build a new \<^verbatim>\<open>Range\<close>; these are
  the values they fill it with.
\<close>

definition IpWrapper_ToRange :: "IP \<Rightarrow> Range" where
  "IpWrapper_ToRange ip = \<lparr>start = ip, end' = ip\<rparr>"

definition IpNetWrapper_ToRange :: "IPNet \<Rightarrow> error + Range" where
  "IpNetWrapper_ToRange ipNet =
     (case lastIp ipNet of
        Inl err \<Rightarrow> Inl err
      | Inr l \<Rightarrow> Inr \<lparr>start = IP ipNet, end' = l\<rparr>)"

text \<open>
  A block is aligned when, for the prefix length \<open>p\<close> its mask stands for, the
  \<open>bitWidth - p\<close> low bits of its base address are zero.
\<close>

definition alignedNet :: "IPNet \<Rightarrow> bool" where
  "alignedNet n \<longleftrightarrow>
     (\<exists>p \<in> set [0 ..< Suc (8 * length (IP n))].
        Mask n = CIDRMask (int p) (int (8 * length (IP n)))
        \<and> val (IP n) mod 2 ^ (8 * length (IP n) - p) = 0)"

subsection \<open>Bit counts\<close>

lemma Ntz_dvd: "2 ^ Ntz n dvd n"
proof (induction n rule: Ntz.induct)
  case (1 n)
  show ?case
  proof (cases "n = 0 \<or> odd n")
    case True
    then show ?thesis by (simp add: Ntz.simps)
  next
    case False
    then have ev: "even n" and nz: "n \<noteq> 0" by simp_all
    from "1.IH" [OF False] have "2 * 2 ^ Ntz (n div 2) dvd 2 * (n div 2)"
      by (simp only: mult_dvd_mono dvd_refl)
    moreover from ev have "2 * (n div 2) = n" by simp
    ultimately show ?thesis using False by (simp add: Ntz.simps [of n])
  qed
qed

lemma Ntz_lt: "0 < n \<Longrightarrow> n < 2 ^ k \<Longrightarrow> Ntz n < k"
proof -
  assume n: "0 < n" and k: "n < 2 ^ k"
  have "(2::nat) ^ Ntz n \<le> n" using Ntz_dvd [of n] n by (simp add: dvd_imp_le)
  also note k
  finally have "(2::nat) ^ Ntz n < 2 ^ k" .
  then show ?thesis by (simp only: power_strict_increasing_iff one_less_numeral_iff semiring_norm)
qed

lemma TrailingZeros8_range: "0 \<le> TrailingZeros8 b \<and> TrailingZeros8 b \<le> 8"
proof (cases "b = 0")
  case True
  then show ?thesis by (simp add: TrailingZeros8_def)
next
  case False
  then have "0 < unat b" by (simp add: unat_gt_0)
  moreover have "unat b < 2 ^ 8" using unat_byte_lt [of b] by simp
  ultimately have "Ntz (unat b) < 8" by (rule Ntz_lt)
  with False show ?thesis by (simp add: TrailingZeros8_def)
qed

lemma TrailingZeros8_dvd: "2 ^ nat (TrailingZeros8 b) dvd unat b"
  by (simp add: TrailingZeros8_def Ntz_dvd)

lemma Len_le: "n < 2 ^ k \<Longrightarrow> Len n \<le> k"
proof (induction k arbitrary: n)
  case 0
  then show ?case by (simp add: Len.simps)
next
  case (Suc k)
  from Suc.prems have "n div 2 < 2 ^ k" by simp
  then have "Len (n div 2) \<le> k" by (rule Suc.IH)
  then show ?case by (simp add: Len.simps [of n])
qed

lemma LeadingZeros8_range: "0 \<le> LeadingZeros8 b \<and> LeadingZeros8 b \<le> 8"
proof -
  have "unat b < 2 ^ 8" using unat_byte_lt [of b] by simp
  then have "Len (unat b) \<le> 8" by (rule Len_le)
  then show ?thesis by (simp add: LeadingZeros8_def)
qed

lemma prefixLength_loop_range:
  "i \<le> length x \<Longrightarrow> 0 \<le> prefixLength_loop x i \<and> prefixLength_loop x i \<le> int (length x) * 8"
proof (induction x i rule: prefixLength_loop.induct)
  case (1 x i)
  show ?case
  proof (cases "i < length x")
    case False
    then show ?thesis by (simp add: prefixLength_loop.simps [of x i])
  next
    case True
    show ?thesis
    proof (cases "x ! i \<noteq> 0")
      case nz: True
      have "int i * 8 + 8 \<le> int (length x) * 8" using True by simp
      with LeadingZeros8_range [of "x ! i"] True nz show ?thesis
        by (simp add: prefixLength_loop.simps [of x i])
    next
      case False
      with "1.IH" [OF True] True show ?thesis
        by (simp add: prefixLength_loop.simps [of x i])
    qed
  qed
qed

lemma prefixLength_range: "0 \<le> prefixLength x \<and> prefixLength x \<le> int (length x) * 8"
  using prefixLength_loop_range [of 0 x] by (simp add: prefixLength_def)

lemma val_zeros: "val (replicate k 0) = 0"
  by (induction k) simp_all

text \<open>
  With the bytes behind index \<open>length xs\<close> all zero, the scan from there finds a number
  of trailing zero bits that divides the value.
\<close>

lemma trailingZeros_loop_dvd:
  "0 \<le> trailingZeros_loop (xs @ replicate k 0) (length xs)
   \<and> trailingZeros_loop (xs @ replicate k 0) (length xs) \<le> int (length xs + k) * 8
   \<and> 2 ^ nat (trailingZeros_loop (xs @ replicate k 0) (length xs)) dvd val (xs @ replicate k 0)"
proof (induction xs arbitrary: k rule: rev_induct)
  case Nil
  then show ?case by (simp add: val_zeros)
next
  case (snoc b xs)
  let ?ip = "(xs @ [b]) @ replicate k 0"
  have nth: "?ip ! length xs = b" by (simp add: nth_append)
  show ?case
  proof (cases "b = 0")
    case True
    have "?ip = xs @ replicate (Suc k) 0" using True by (simp add: replicate_app_Cons_same)
    then show ?thesis using snoc.IH [of "Suc k"] True nth by simp
  next
    case False
    let ?t = "int k * 8 + TrailingZeros8 b"
    have t: "trailingZeros_loop ?ip (length (xs @ [b])) = ?t"
      using False nth by simp
    have r: "0 \<le> TrailingZeros8 b" "TrailingZeros8 b \<le> 8"
      using TrailingZeros8_range [of b] by simp_all
    have "nat ?t = 8 * k + nat (TrailingZeros8 b)" using r by (simp add: nat_add_distrib)
    then have p: "(2::nat) ^ nat ?t = 2 ^ nat (TrailingZeros8 b) * 256 ^ k"
      by (simp add: power_add power_mult)
    have "(2::nat) ^ nat (TrailingZeros8 b) dvd 2 ^ 8" using r by (intro le_imp_power_dvd) simp
    then have "(2::nat) ^ nat (TrailingZeros8 b) dvd val xs * 256 + unat b"
      using TrailingZeros8_dvd [of b] by (simp add: dvd_add)
    then have "(2::nat) ^ nat ?t dvd (val xs * 256 + unat b) * 256 ^ k"
      unfolding p by (rule mult_dvd_mono) simp
    moreover have "val ?ip = (val xs * 256 + unat b) * 256 ^ k"
      by (simp add: val_append val_zeros algebra_simps)
    ultimately show ?thesis using r by (simp only: t) simp
  qed
qed

lemma trailingZeros_range: "0 \<le> trailingZeros ip \<and> trailingZeros ip \<le> int (length ip) * 8"
  using trailingZeros_loop_dvd [of ip 0] by (simp add: trailingZeros_def)

lemma trailingZeros_dvd: "2 ^ nat (trailingZeros ip) dvd val ip"
  using trailingZeros_loop_dvd [of ip 0] by (simp add: trailingZeros_def)

lemma length_CIDRMask_loop: "length (CIDRMask_loop l n) = l"
  by (induction l n rule: CIDRMask_loop.induct) simp_all

lemma length_CIDRMask:
  "bits = 32 \<or> bits = 128 \<Longrightarrow> 0 \<le> ones \<Longrightarrow> ones \<le> bits \<Longrightarrow>
     length (CIDRMask ones bits) = nat (bits div 8)"
  by (auto simp add: CIDRMask_def length_CIDRMask_loop)


lemma xor_ip_Inr: "length a \<le> length b \<Longrightarrow> \<exists>x. xor_ip a b = Inr x \<and> length x = length a"
  by (simp add: xor_ip_def)

lemma lastIp_total:
  "length (IP n) \<le> length (Mask n) \<Longrightarrow> \<exists>tmp. lastIp n = Inr tmp"
  by (simp add: lastIp_def)

text \<open>One round of the loop: the prefix length it chooses and the block it emits.\<close>

lemma cidr_range:
  assumes "length x = length s" 
  defines "cidr \<equiv> max (prefixLength x) (int (length s) * 8 - trailingZeros s)"
  shows "0 \<le> cidr" and "cidr \<le> int (length s) * 8"
    and "int (length s) * 8 - cidr \<le> trailingZeros s"
  using prefixLength_range [of x] trailingZeros_range [of s] assms(1)
  by (auto simp add: cidr_def max_def)

lemma emitted_block_aligned:
  assumes len: "length s = 4 \<or> length s = 16"
    and c0: "0 \<le> cidr" and c1: "cidr \<le> int (length s) * 8"
    and tz: "int (length s) * 8 - cidr \<le> trailingZeros s"
  shows "alignedNet \<lparr>IP = s, Mask = CIDRMask cidr (int (length s) * 8)\<rparr>"
proof -
  let ?W = "8 * length s"
  let ?p = "nat cidr"
  have p: "?p \<in> set [0 ..< Suc ?W]" using c0 c1 by auto
  have m: "CIDRMask cidr (int (length s) * 8) = CIDRMask (int ?p) (int ?W)"
    using c0 by (simp add: mult.commute)
  have "?W - ?p \<le> nat (trailingZeros s)" using tz c0 c1 by linarith
  then have "(2::nat) ^ (?W - ?p) dvd 2 ^ nat (trailingZeros s)" by (rule le_imp_power_dvd)
  then have "2 ^ (?W - ?p) dvd val s" using trailingZeros_dvd by (rule dvd_trans)
  then have "val s mod 2 ^ (?W - ?p) = 0" by simp
  with p m show ?thesis unfolding alignedNet_def by (intro bexI [of _ ?p]) simp_all
qed

lemma ToIpNets_loop_aligned:
  assumes "length s = length e" and "length s = 4 \<or> length s = 16"
    and "ipBits = int (length s) * 8" and "\<forall>n \<in> set result. alignedNet n"
  shows "\<exists>nets. ToIpNets_loop ipBits s e result = Inr nets \<and> (\<forall>n \<in> set nets. alignedNet n)"
  using assms
proof (induction ipBits s e result rule: ToIpNets_loop.induct)
  case (1 ipBits s e result)
  show ?case
  proof (cases "0 < bytes_Compare s e")
    case True
    with "1.prems" show ?thesis by (simp add: ToIpNets_loop.simps [of ipBits s e])
  next
    case False
    from "1.prems"(1) obtain x where x: "xor_ip (addOne e) s = Inr x" and lx: "length x = length s"
      using xor_ip_Inr [of "addOne e" s] by auto
    define cidr where "cidr = max (prefixLength x) (ipBits - trailingZeros s)"
    define ipNet where "ipNet = \<lparr>IP = s, Mask = CIDRMask cidr ipBits\<rparr>"
    define result' where "result' = result @ [ipNet]"
    have cr: "0 \<le> cidr" "cidr \<le> int (length s) * 8" "int (length s) * 8 - cidr \<le> trailingZeros s"
      using cidr_range [OF lx] by (simp_all add: cidr_def "1.prems"(3))
    have al: "alignedNet ipNet"
      unfolding ipNet_def "1.prems"(3) using "1.prems"(2) cr by (rule emitted_block_aligned)
    have "length (Mask ipNet) = length s"
      using length_CIDRMask [of ipBits cidr] cr "1.prems"(2,3) by (auto simp: ipNet_def)
    then obtain tmp where tmp: "lastIp ipNet = Inr tmp"
      using lastIp_total [of ipNet] by (auto simp: ipNet_def)
    then have lt: "length tmp = length s" using lastIp_Inr [of ipNet tmp] by (simp add: ipNet_def)
    have inv: "\<forall>n \<in> set result'. alignedNet n" using "1.prems"(4) al by (simp add: result'_def)
    have unfold: "ToIpNets_loop ipBits s e result =
        (if \<not> lessThan_ip tmp e then Inr result' else ToIpNets_loop ipBits (addOne tmp) e result')"
      using False x tmp
      by (simp add: ToIpNets_loop.simps [of ipBits s e] cidr_def [symmetric] ipNet_def [symmetric]
          result'_def [symmetric] Let_def)
    show ?thesis
    proof (cases "lessThan_ip tmp e")
      case lf: False
      with unfold inv show ?thesis by simp
    next
      case lt': True
      have "\<exists>nets. ToIpNets_loop ipBits (addOne tmp) e result' = Inr nets
          \<and> (\<forall>n \<in> set nets. alignedNet n)"
      proof (rule "1.IH" [OF False x cidr_def ipNet_def result'_def tmp])
        show "\<not> \<not> lessThan_ip tmp e" using lt' by simp
        show "length (addOne tmp) = length e" using lt "1.prems"(1) by simp
        show "length (addOne tmp) = 4 \<or> length (addOne tmp) = 16" using lt "1.prems"(2) by simp
        show "ipBits = int (length (addOne tmp)) * 8" using lt "1.prems"(3) by simp
        show "\<forall>n \<in> set result'. alignedNet n" by (rule inv)
      qed
      with unfold lt' show ?thesis by simp
    qed
  qed
qed

section \<open>MergeRanges\<close>

text \<open>
  \<^verbatim>\<open>MergeRanges\<close> works on \<^verbatim>\<open>*Range\<close> pointers and assigns to \<^verbatim>\<open>current.end\<close>, so the
  \<^verbatim>\<open>Range\<close> objects live in an explicit store: a heap is the list of the objects
  allocated so far, and a \<^verbatim>\<open>*Range\<close> is an index into it.  The bytes of an address are
  never written, only the field \<^verbatim>\<open>end\<close> of a \<^verbatim>\<open>Range\<close> is replaced.
\<close>

type_synonym heap = "Range list"

text \<open>
  The three implementations of the interface \<^verbatim>\<open>IRange\<close>: a \<^verbatim>\<open>*Range\<close> (a pointer), an
  \<^verbatim>\<open>IpWrapper\<close> and an \<^verbatim>\<open>IpNetWrapper\<close> (values; the \<^verbatim>\<open>net.IPNet\<close> behind the latter is
  only read).
\<close>

datatype IRange = RangePtr nat | IpWrapper IP | IpNetWrapper IPNet

text \<open>
  A \<^verbatim>\<open>*Range\<close> of an input is taken to be non-nil: \<open>RangePtr p\<close> with \<open>p\<close> below the
  length of the heap.
\<close>

text \<open>
  \<^verbatim>\<open>ToRange\<close>: \<^verbatim>\<open>Range.ToRange\<close> returns the receiver itself, the two wrappers allocate
  a new \<^verbatim>\<open>Range\<close>.
\<close>

fun ToRange :: "heap \<Rightarrow> IRange \<Rightarrow> error + heap \<times> nat" where
  "ToRange h (RangePtr p) = Inr (h, p)"
| "ToRange h (IpWrapper ip) = Inr (h @ [IpWrapper_ToRange ip], length h)"
| "ToRange h (IpNetWrapper ipNet) =
     (case IpNetWrapper_ToRange ipNet of
        Inl err \<Rightarrow> Inl err
      | Inr r \<Rightarrow> Inr (h @ [r], length h))"

text \<open>The first loop of \<^verbatim>\<open>MergeRanges\<close>: \<^verbatim>\<open>rangeList = append(rangeList, r.ToRange())\<close>.\<close>

fun toRangeList :: "heap \<Rightarrow> IRange list \<Rightarrow> nat list \<Rightarrow> error + heap \<times> nat list" where
  "toRangeList h [] rangeList = Inr (h, rangeList)"
| "toRangeList h (r # ranges) rangeList =
     (case ToRange h r of
        Inl err \<Rightarrow> Inl err
      | Inr (h', p) \<Rightarrow> toRangeList h' ranges (rangeList @ [p]))"

text \<open>
  \<^verbatim>\<open>sort.Slice\<close> is the Go library's sort.  It is not stable, and only for slices of at
  most 12 elements is it a plain insertion sort; above that length it is a pattern-defeating
  quicksort, which is not modelled.  So \<^verbatim>\<open>MergeRanges\<close> below takes the sort as a
  parameter: a function from the \<^verbatim>\<open>less\<close> closure and the slice to the sorted slice.
  The two properties of \<^verbatim>\<open>sort.Slice\<close> the proofs use are stated as predicates on that
  parameter:
  \<^item> \<open>sortsByLess\<close>: when \<^verbatim>\<open>less\<close> is the strict order of a numeric key on the elements
    of the slice, the result is a permutation of the slice, sorted by that key (in any
    order of equal keys);
  \<^item> \<open>keepsSorted\<close>: a slice that is already sorted by the key is returned as it is.
  The first is what \<^verbatim>\<open>sort.Slice\<close> is documented to do.  The second is what its
  implementation does since Go 1.19 (the insertion sort swaps nothing, and the quicksort
  finds no inversion in its first scan and returns); the README asks for Go 1.21.
\<close>

type_synonym sortSlice = "(nat \<Rightarrow> nat \<Rightarrow> bool) \<Rightarrow> nat list \<Rightarrow> nat list"

definition sortsByLess :: "sortSlice \<Rightarrow> bool" where
  "sortsByLess srt \<longleftrightarrow>
     (\<forall>lt (key :: nat \<Rightarrow> nat) xs.
        (\<forall>a \<in> set xs. \<forall>b \<in> set xs. lt a b \<longleftrightarrow> key a < key b) \<longrightarrow>
        mset (srt lt xs) = mset xs \<and> sorted (map key (srt lt xs)))"

definition keepsSorted :: "sortSlice \<Rightarrow> bool" where
  "keepsSorted srt \<longleftrightarrow>
     (\<forall>lt (key :: nat \<Rightarrow> nat) xs.
        (\<forall>a \<in> set xs. \<forall>b \<in> set xs. lt a b \<longleftrightarrow> key a < key b) \<longrightarrow>
        sorted (map key xs) \<longrightarrow> srt lt xs = xs)"

text \<open>
  The insertion sort that \<^verbatim>\<open>sort.Slice\<close> runs on a slice of at most 12 elements: each
  element moves left while it is less than its left neighbour.  The sorted prefix is kept
  reversed, its last element first.  It is used below to run \<^verbatim>\<open>MergeRanges\<close> on inputs
  of two or three elements, and it has both properties.
\<close>

fun insertLeft :: "('a \<Rightarrow> 'a \<Rightarrow> bool) \<Rightarrow> 'a \<Rightarrow> 'a list \<Rightarrow> 'a list" where
  "insertLeft lt x [] = [x]"
| "insertLeft lt x (y # prefix) =
     (if lt x y then y # insertLeft lt x prefix else x # y # prefix)"

definition insertionSort :: "('a \<Rightarrow> 'a \<Rightarrow> bool) \<Rightarrow> 'a list \<Rightarrow> 'a list" where
  "insertionSort lt xs = rev (foldl (\<lambda>prefix x. insertLeft lt x prefix) [] xs)"

text \<open>
  The merge loop, with the heap, \<^verbatim>\<open>result\<close>, \<^verbatim>\<open>current\<close> and the rest of \<^verbatim>\<open>rangeList\<close>
  as its state.  \<^verbatim>\<open>current.end = next.end\<close> writes into the object \<^verbatim>\<open>current\<close> points to.
\<close>

fun MergeRanges_loop :: "heap \<Rightarrow> nat list \<Rightarrow> nat \<Rightarrow> nat list \<Rightarrow> heap \<times> nat list" where
  "MergeRanges_loop h result current [] = (h, result @ [current])"
| "MergeRanges_loop h result current (next # rest) =
     (if bytes_Compare (addOne (end' (h ! current))) (start (h ! next)) \<ge> 0
      then (if bytes_Compare (end' (h ! current)) (end' (h ! next)) < 0
            then MergeRanges_loop (h[current := (h ! current)\<lparr>end' := end' (h ! next)\<rparr>])
                   result current rest
            else MergeRanges_loop h result current rest)
      else MergeRanges_loop h (result @ [current]) next rest)"

text \<open>
  \<^verbatim>\<open>MergeRanges\<close>: the sort it calls, the heap it starts from, the input slice; it
  returns the heap it leaves and the slice of \<^verbatim>\<open>*Range\<close> it built.  An empty input is
  returned as it is.
\<close>

definition MergeRanges ::
  "sortSlice \<Rightarrow> heap \<Rightarrow> IRange list \<Rightarrow> error + heap \<times> IRange list" where
  "MergeRanges sort_Slice h ranges =
     (if length ranges = 0 then Inr (h, ranges)
      else case toRangeList h ranges [] of
             Inl err \<Rightarrow> Inl err
           | Inr (h1, rangeList) \<Rightarrow>
               (case sort_Slice
                       (\<lambda>p q. bytes_Compare (start (h1 ! p)) (start (h1 ! q)) < 0) rangeList of
                  [] \<Rightarrow> Inl IndexOutOfRange
                | current # rest \<Rightarrow>
                    (case MergeRanges_loop h1 [] current rest of
                       (h2, result) \<Rightarrow> Inr (h2, map RangePtr result))))"

text \<open>
  Well-formed inputs of the family with \<open>n\<close>-byte addresses: an interval has both
  addresses of that length and \<open>start \<le> end\<close> in unsigned order; a \<^verbatim>\<open>*Range\<close> points to
  an allocated, well-formed interval; a single address has that length; a network has an
  address and a mask of that length.
\<close>

definition wfRange :: "nat \<Rightarrow> Range \<Rightarrow> bool" where
  "wfRange n r \<longleftrightarrow> length (start r) = n \<and> length (end' r) = n \<and> val (start r) \<le> val (end' r)"

fun wfInput :: "nat \<Rightarrow> heap \<Rightarrow> IRange \<Rightarrow> bool" where
  "wfInput n h (RangePtr p) \<longleftrightarrow> p < length h \<and> wfRange n (h ! p)"
| "wfInput n h (IpWrapper ip) \<longleftrightarrow> length ip = n"
| "wfInput n h (IpNetWrapper ipNet) \<longleftrightarrow> length (IP ipNet) = n \<and> length (Mask ipNet) = n"

text \<open>
  The addresses of an interval, and of an input once \<^verbatim>\<open>ToRange\<close> has turned it into one.
\<close>

definition contains :: "Range \<Rightarrow> IP \<Rightarrow> bool" where
  "contains r a \<longleftrightarrow>
     length a = length (start r) \<and> bytes_Compare (start r) a \<le> 0 \<and> bytes_Compare a (end' r) \<le> 0"

definition coveredBy :: "heap \<Rightarrow> IRange \<Rightarrow> IP \<Rightarrow> bool" where
  "coveredBy h r a =
     (case ToRange h r of Inl err \<Rightarrow> False | Inr (h', p) \<Rightarrow> contains (h' ! p) a)"

section \<open>The merge loop on well-formed intervals\<close>

lemma Compare_le_iff:
  "length xs = length ys \<Longrightarrow> bytes_Compare xs ys \<le> 0 \<longleftrightarrow> val xs \<le> val ys"
  by (auto simp add: bytes_Compare_val)

lemma contains_val:
  "wfRange n r \<Longrightarrow>
     contains r a \<longleftrightarrow> length a = n \<and> val (start r) \<le> val a \<and> val a \<le> val (end' r)"
  by (auto simp add: contains_def wfRange_def Compare_le_iff)

text \<open>The test of the merge loop, on values.\<close>

lemma adjacent_test_val:
  assumes "length ce = n" and "length ns = n"
  shows "0 \<le> bytes_Compare (addOne ce) ns \<longleftrightarrow> val ns \<le> Suc (val ce) mod 256 ^ n"
  using assms by (simp add: Compare_ge_iff val_addOne)

lemma Suc_mod_no_wrap:
  fixes v w m :: nat
  assumes "v < w" and "w < m"
  shows "Suc v mod m = Suc v"
  using assms by simp

text \<open>Reading the heap after \<^verbatim>\<open>current.end = next.end\<close>.\<close>

lemma heap_write_other: "p \<noteq> c \<Longrightarrow> (h[c := x]) ! p = h ! p"
  by simp

lemma loop_cover:
  assumes "\<forall>p \<in> set (result @ current # rest). p < length h \<and> wfRange n (h ! p)"
    and "sorted (map (\<lambda>p. val (start (h ! p))) (current # rest))"
    and "MergeRanges_loop h result current rest = (h', out)"
  shows "(\<exists>p \<in> set out. contains (h' ! p) a)
     \<longleftrightarrow> (\<exists>p \<in> set (result @ current # rest). contains (h ! p) a)"
  using assms
proof (induction rest arbitrary: h result current)
  case Nil
  then show ?case by auto
next
  case (Cons nxt rest)
  let ?c = "h ! current" and ?x = "h ! nxt"
  from Cons.prems(1) have wc: "wfRange n ?c" and wx: "wfRange n ?x"
    and vc: "current < length h" by simp_all
  from Cons.prems(2) have sx: "val (start ?c) \<le> val (start ?x)" by simp
  from Cons.prems(2) have srt: "sorted (map (\<lambda>p. val (start (h ! p))) (nxt # rest))"
    and srt': "sorted (map (\<lambda>p. val (start (h ! p))) (current # rest))"
    by auto
  have cx: "contains ?c a \<or> contains ?x a \<longleftrightarrow>
     length a = n \<and> val (start ?c) \<le> val a \<and> val a \<le> max (val (end' ?c)) (val (end' ?x))"
    if "val (start ?x) \<le> Suc (val (end' ?c))"
    using that sx wc wx by (auto simp add: contains_val [OF wc] contains_val [OF wx] wfRange_def)
  show ?case
  proof (cases "0 \<le> bytes_Compare (addOne (end' ?c)) (start ?x)")
    case nomerge: False
    from Cons.prems(3) nomerge
    have run: "MergeRanges_loop h (result @ [current]) nxt rest = (h', out)" by simp
    have "(\<exists>p \<in> set out. contains (h' ! p) a)
       \<longleftrightarrow> (\<exists>p \<in> set ((result @ [current]) @ nxt # rest). contains (h ! p) a)"
      using Cons.prems(1) srt run by (intro Cons.IH) auto
    then show ?thesis by simp
  next
    case merge: True
    then have adj: "val (start ?x) \<le> Suc (val (end' ?c)) mod 256 ^ n"
      using wc wx by (simp add: adjacent_test_val [of _ n] wfRange_def)
    show ?thesis
    proof (cases "bytes_Compare (end' ?c) (end' ?x) < 0")
      case False
      then have ee: "val (end' ?x) \<le> val (end' ?c)"
        using wc wx by (simp add: Compare_less_iff wfRange_def)
      from Cons.prems(3) merge False
      have run: "MergeRanges_loop h result current rest = (h', out)" by simp
      have "(\<exists>p \<in> set out. contains (h' ! p) a)
         \<longleftrightarrow> (\<exists>p \<in> set (result @ current # rest). contains (h ! p) a)"
        using Cons.prems(1) srt' run by (intro Cons.IH) auto
      moreover have "contains ?x a \<Longrightarrow> contains ?c a"
        using sx ee by (simp add: contains_val [OF wc] contains_val [OF wx])
      ultimately show ?thesis by auto
    next
      case True
      then have ee: "val (end' ?c) < val (end' ?x)"
        using wc wx by (simp add: Compare_less_iff wfRange_def)
      have "val (end' ?x) < 256 ^ n" using val_lt [of "end' ?x"] wx by (simp add: wfRange_def)
      with ee have "Suc (val (end' ?c)) mod 256 ^ n = Suc (val (end' ?c))"
        by (rule Suc_mod_no_wrap)
      with adj have adj': "val (start ?x) \<le> Suc (val (end' ?c))" by simp
      let ?h = "h[current := ?c\<lparr>end' := end' ?x\<rparr>]"
      from Cons.prems(3) merge True
      have run: "MergeRanges_loop ?h result current rest = (h', out)" by simp
      have other: "?h ! p = h ! p" if "p \<noteq> current" for p using that by simp
      have self: "?h ! current = ?c\<lparr>end' := end' ?x\<rparr>" using vc by simp
      have wnew: "wfRange n (?c\<lparr>end' := end' ?x\<rparr>)"
        using wc wx ee by (simp add: wfRange_def)
      have wf': "\<forall>p \<in> set (result @ current # rest). p < length ?h \<and> wfRange n (?h ! p)"
      proof
        fix p assume "p \<in> set (result @ current # rest)"
        with Cons.prems(1) have "p < length h" "wfRange n (h ! p)" by auto
        then show "p < length ?h \<and> wfRange n (?h ! p)"
          using wnew self other by (cases "p = current") simp_all
      qed
      have st: "start (?h ! p) = start (h ! p)" for p
        using self other by (cases "p = current") simp_all
      have srt'': "sorted (map (\<lambda>p. val (start (?h ! p))) (current # rest))"
        using srt' by (simp only: st)
      have ih: "(\<exists>p \<in> set out. contains (h' ! p) a)
         \<longleftrightarrow> (\<exists>p \<in> set (result @ current # rest). contains (?h ! p) a)"
        using wf' srt'' run by (rule Cons.IH)
      have cnew: "contains (?h ! current) a \<longleftrightarrow> contains ?c a \<or> contains ?x a"
        using cx [OF adj'] ee by (simp add: self contains_val [OF wnew] max_def)
      have "(\<exists>p \<in> set (result @ current # rest). contains (?h ! p) a)
         \<longleftrightarrow> (\<exists>p \<in> set (result @ current # nxt # rest). contains (h ! p) a)"
        (is "?L \<longleftrightarrow> ?R")
      proof
        assume ?L
        then obtain p where p: "p \<in> set (result @ current # rest)" "contains (?h ! p) a" by blast
        show ?R
        proof (cases "p = current")
          case True
          with p cnew show ?thesis by auto
        next
          case False
          then have "?h ! p = h ! p" by (rule other)
          with p(2) have "contains (h ! p) a" by simp
          moreover from p(1) have "p \<in> set (result @ current # nxt # rest)" by auto
          ultimately show ?thesis by blast
        qed
      next
        assume ?R
        then obtain p where p: "p \<in> set (result @ current # nxt # rest)" "contains (h ! p) a" by blast
        show ?L
        proof (cases "p = current \<or> p = nxt")
          case True
          with p cnew have "contains (?h ! current) a" by auto
          then show ?thesis by auto
        next
          case False
          then have "?h ! p = h ! p" by (simp add: other)
          with p(2) have "contains (?h ! p) a" by simp
          moreover from False p(1) have "p \<in> set (result @ current # rest)" by auto
          ultimately show ?thesis by blast
        qed
      qed
      with ih show ?thesis by simp
    qed
  qed
qed


subsection \<open>The sort\<close>

lemma set_insertLeft: "set (insertLeft lt x pre) = insert x (set pre)"
  by (induction pre) auto

lemma insertLeft_descending:
  assumes "\<forall>a \<in> insert x (set pre). \<forall>b \<in> insert x (set pre). lt a b \<longleftrightarrow> key a < (key b :: nat)"
    and "sorted_wrt (\<lambda>a b. key b \<le> key a) pre"
  shows "sorted_wrt (\<lambda>a b. key b \<le> key a) (insertLeft lt x pre)"
  using assms
proof (induction pre)
  case Nil
  then show ?case by simp
next
  case (Cons y pre)
  show ?case
  proof (cases "lt x y")
    case True
    with Cons.prems(1) have "key x < key y" by simp
    moreover have "sorted_wrt (\<lambda>a b. key b \<le> key a) (insertLeft lt x pre)"
      using Cons.prems by (intro Cons.IH) auto
    ultimately show ?thesis using True Cons.prems(2) by (auto simp add: set_insertLeft)
  next
    case False
    with Cons.prems(1) have "key y \<le> key x" by auto
    with False Cons.prems(2) show ?thesis by auto
  qed
qed

lemma foldl_insertLeft:
  assumes "\<forall>a \<in> set pre \<union> set xs. \<forall>b \<in> set pre \<union> set xs. lt a b \<longleftrightarrow> key a < (key b :: nat)"
    and "sorted_wrt (\<lambda>a b. key b \<le> key a) pre"
  shows "sorted_wrt (\<lambda>a b. key b \<le> key a) (foldl (\<lambda>prefix x. insertLeft lt x prefix) pre xs)
     \<and> set (foldl (\<lambda>prefix x. insertLeft lt x prefix) pre xs) = set pre \<union> set xs"
  using assms
proof (induction xs arbitrary: pre)
  case Nil
  then show ?case by simp
next
  case (Cons x xs)
  have d: "sorted_wrt (\<lambda>a b. key b \<le> key a) (insertLeft lt x pre)"
    using Cons.prems by (intro insertLeft_descending) auto
  have "\<forall>a \<in> set (insertLeft lt x pre) \<union> set xs. \<forall>b \<in> set (insertLeft lt x pre) \<union> set xs.
      lt a b \<longleftrightarrow> key a < key b"
    using Cons.prems(1) by (simp add: set_insertLeft)
  from Cons.IH [OF this d] show ?case by (auto simp add: set_insertLeft)
qed

lemma mset_insertLeft: "mset (insertLeft lt x pre) = add_mset x (mset pre)"
  by (induction pre) simp_all

lemma mset_foldl_insertLeft:
  "mset (foldl (\<lambda>prefix x. insertLeft lt x prefix) pre xs) = mset pre + mset xs"
  by (induction xs arbitrary: pre) (simp_all add: mset_insertLeft)

lemma mset_insertionSort: "mset (insertionSort lt xs) = mset xs"
  by (simp add: insertionSort_def mset_foldl_insertLeft)

lemma insertionSort_sorted:
  assumes "\<forall>a \<in> set xs. \<forall>b \<in> set xs. lt a b \<longleftrightarrow> key a < (key b :: nat)"
  shows "sorted (map key (insertionSort lt xs))" and "set (insertionSort lt xs) = set xs"
proof -
  have f: "sorted_wrt (\<lambda>a b. key b \<le> key a) (foldl (\<lambda>prefix x. insertLeft lt x prefix) [] xs)
     \<and> set (foldl (\<lambda>prefix x. insertLeft lt x prefix) [] xs) = set [] \<union> set xs"
    using assms by (intro foldl_insertLeft) simp_all
  then show "set (insertionSort lt xs) = set xs" by (simp add: insertionSort_def)
  from f have "sorted_wrt (\<lambda>a b. key a \<le> key b) (insertionSort lt xs)"
    by (simp add: insertionSort_def sorted_wrt_rev)
  then show "sorted (map key (insertionSort lt xs))" by (simp add: sorted_map)
qed

text \<open>A slice that is already sorted is left as it is.\<close>

lemma foldl_insertLeft_sorted:
  assumes "\<forall>a \<in> set pre \<union> set xs. \<forall>b \<in> set pre \<union> set xs. lt a b \<longleftrightarrow> key a < (key b :: nat)"
    and "sorted (map key (rev pre @ xs))"
  shows "foldl (\<lambda>prefix x. insertLeft lt x prefix) pre xs = rev xs @ pre"
  using assms
proof (induction xs arbitrary: pre)
  case Nil
  then show ?case by simp
next
  case (Cons x xs)
  have ins: "insertLeft lt x pre = x # pre"
  proof (cases pre)
    case Nil
    then show ?thesis by simp
  next
    case (Cons y ys)
    with Cons.prems(2) have "key y \<le> key x" by (simp add: sorted_append)
    moreover have "lt x y \<longleftrightarrow> key x < key y" using Cons.prems(1) Cons by simp
    ultimately show ?thesis using Cons by simp
  qed
  have "foldl (\<lambda>prefix x. insertLeft lt x prefix) (x # pre) xs = rev xs @ x # pre"
    using Cons.prems by (intro Cons.IH) auto
  with ins show ?case by simp
qed

lemma insertionSort_sorted_id:
  assumes "\<forall>a \<in> set xs. \<forall>b \<in> set xs. lt a b \<longleftrightarrow> key a < (key b :: nat)"
    and "sorted (map key xs)"
  shows "insertionSort lt xs = xs"
  using foldl_insertLeft_sorted [of "[]" xs lt key] assms by (simp add: insertionSort_def)

text \<open>The insertion sort has the two properties asked of the sort.\<close>

lemma sortsByLess_insertionSort: "sortsByLess insertionSort"
  unfolding sortsByLess_def
  by (intro allI impI conjI mset_insertionSort insertionSort_sorted(1))

lemma keepsSorted_insertionSort: "keepsSorted insertionSort"
  unfolding keepsSorted_def
  by (intro allI impI insertionSort_sorted_id)

lemma sortsByLess_D:
  assumes "sortsByLess srt"
    and "\<forall>a \<in> set xs. \<forall>b \<in> set xs. lt a b \<longleftrightarrow> key a < (key b :: nat)"
  shows "sorted (map key (srt lt xs))" and "set (srt lt xs) = set xs"
proof -
  from assms have m: "mset (srt lt xs) = mset xs" and s: "sorted (map key (srt lt xs))"
    unfolding sortsByLess_def by blast+
  from s show "sorted (map key (srt lt xs))" .
  from m show "set (srt lt xs) = set xs" by (rule mset_eq_setD)
qed

lemma keepsSorted_D:
  assumes "keepsSorted srt"
    and "\<forall>a \<in> set xs. \<forall>b \<in> set xs. lt a b \<longleftrightarrow> key a < (key b :: nat)"
    and "sorted (map key xs)"
  shows "srt lt xs = xs"
  using assms unfolding keepsSorted_def by blast


subsection \<open>Normalising the inputs\<close>

lemma wfRange_IpNetWrapper:
  assumes "length (IP ipNet) = n" and "length (Mask ipNet) = n"
  shows "\<exists>r. IpNetWrapper_ToRange ipNet = Inr r \<and> wfRange n r"
proof -
  from assms obtain tmp where t: "lastIp ipNet = Inr tmp"
    using lastIp_total [of ipNet] by auto
  from lastIp_Inr [OF t] assms show ?thesis
    by (simp add: IpNetWrapper_ToRange_def t wfRange_def)
qed

text \<open>\<^verbatim>\<open>ToRange\<close> only ever appends to the heap, and its result is a well-formed interval.\<close>

lemma ToRange_ok:
  assumes "wfInput n h r"
  shows "\<exists>ext p. ToRange h r = Inr (h @ ext, p) \<and> p < length (h @ ext)
       \<and> wfRange n ((h @ ext) ! p)"
proof (cases r)
  case (RangePtr p)
  with assms have "ToRange h r = Inr (h @ [], p) \<and> p < length (h @ []) \<and> wfRange n ((h @ []) ! p)"
    by simp
  then show ?thesis by blast
next
  case (IpWrapper ip)
  with assms have "ToRange h r = Inr (h @ [IpWrapper_ToRange ip], length h)
      \<and> length h < length (h @ [IpWrapper_ToRange ip])
      \<and> wfRange n ((h @ [IpWrapper_ToRange ip]) ! length h)"
    by (simp add: IpWrapper_ToRange_def wfRange_def)
  then show ?thesis by blast
next
  case (IpNetWrapper ipNet)
  with assms obtain x where x: "IpNetWrapper_ToRange ipNet = Inr x" "wfRange n x"
    using wfRange_IpNetWrapper [of ipNet n] by auto
  with IpNetWrapper have "ToRange h r = Inr (h @ [x], length h)
      \<and> length h < length (h @ [x]) \<and> wfRange n ((h @ [x]) ! length h)"
    by simp
  then show ?thesis by blast
qed

lemma wfInput_extend: "wfInput n h r \<Longrightarrow> wfInput n (h @ ext) r"
  by (cases r) (simp_all add: nth_append)

lemma coveredBy_extend: "wfInput n h r \<Longrightarrow> coveredBy (h @ ext) r a = coveredBy h r a"
  by (cases r) (simp_all add: coveredBy_def nth_append split: sum.splits)

lemma toRangeList_ok:
  assumes "\<forall>r \<in> set ranges. wfInput n h r"
    and "\<forall>p \<in> set acc. p < length h \<and> wfRange n (h ! p)"
  shows "\<exists>h1 ps. toRangeList h ranges acc = Inr (h1, acc @ ps)
      \<and> length ps = length ranges
      \<and> (\<forall>p \<in> set (acc @ ps). p < length h1 \<and> wfRange n (h1 ! p))
      \<and> (\<forall>p \<in> set acc. h1 ! p = h ! p)
      \<and> (\<forall>a. (\<exists>p \<in> set ps. contains (h1 ! p) a) \<longleftrightarrow> (\<exists>r \<in> set ranges. coveredBy h r a))"
  using assms
proof (induction ranges arbitrary: h acc)
  case Nil
  then show ?case by simp
next
  case (Cons r ranges)
  from Cons.prems(1) have "wfInput n h r" by simp
  from ToRange_ok [OF this] obtain ext p where
    tr: "ToRange h r = Inr (h @ ext, p)" and p: "p < length (h @ ext)"
    and wp: "wfRange n ((h @ ext) ! p)" by blast
  let ?h = "h @ ext"
  have cov: "coveredBy h r a = contains (?h ! p) a" for a
    by (simp add: coveredBy_def tr)
  have wf1: "\<forall>r \<in> set ranges. wfInput n ?h r"
    using Cons.prems(1) by (simp add: wfInput_extend)
  have old: "?h ! q = h ! q" if "q \<in> set acc" for q
    using that Cons.prems(2) by (simp add: nth_append)
  have wf2: "\<forall>q \<in> set (acc @ [p]). q < length ?h \<and> wfRange n (?h ! q)"
    using Cons.prems(2) p wp old by auto
  from Cons.IH [OF wf1 wf2] obtain h1 ps where
    run: "toRangeList ?h ranges (acc @ [p]) = Inr (h1, (acc @ [p]) @ ps)"
    and len: "length ps = length ranges"
    and wf3: "\<forall>q \<in> set ((acc @ [p]) @ ps). q < length h1 \<and> wfRange n (h1 ! q)"
    and same: "\<forall>q \<in> set (acc @ [p]). h1 ! q = ?h ! q"
    and cover: "\<forall>a. (\<exists>q \<in> set ps. contains (h1 ! q) a) \<longleftrightarrow> (\<exists>r \<in> set ranges. coveredBy ?h r a)"
    by blast
  have c1: "(\<exists>r \<in> set ranges. coveredBy ?h r a) \<longleftrightarrow> (\<exists>r \<in> set ranges. coveredBy h r a)" for a
  proof -
    have "coveredBy ?h r' a = coveredBy h r' a" if "r' \<in> set ranges" for r'
      using that Cons.prems(1) by (intro coveredBy_extend [of n]) simp
    then show ?thesis by blast
  qed
  have c2: "contains (h1 ! p) a = coveredBy h r a" for a
    using same cov by simp
  have "toRangeList h (r # ranges) acc = Inr (h1, acc @ (p # ps))"
    using tr run by simp
  moreover have "length (p # ps) = length (r # ranges)" using len by simp
  moreover have "\<forall>q \<in> set (acc @ (p # ps)). q < length h1 \<and> wfRange n (h1 ! q)"
    using wf3 by simp
  moreover have "\<forall>q \<in> set acc. h1 ! q = h ! q" using same old by simp
  moreover have "\<forall>a. (\<exists>q \<in> set (p # ps). contains (h1 ! q) a)
      \<longleftrightarrow> (\<exists>r' \<in> set (r # ranges). coveredBy h r' a)"
    using cover c1 c2 by auto
  ultimately show ?case by blast
qed


subsection \<open>What MergeRanges runs\<close>

text \<open>
  For well-formed inputs of one family and a sort that sorts, \<^verbatim>\<open>MergeRanges\<close> on a
  non-empty slice is the merge loop on a list of valid pointers, sorted by start, that
  covers the inputs.
\<close>

lemma MergeRanges_run:
  assumes "sortsByLess srt" and "\<forall>r \<in> set ranges. wfInput n h r" and "ranges \<noteq> []"
  shows "\<exists>h1 current rest.
      MergeRanges srt h ranges =
        (case MergeRanges_loop h1 [] current rest of (h2, result) \<Rightarrow> Inr (h2, map RangePtr result))
      \<and> (\<forall>p \<in> set (current # rest). p < length h1 \<and> wfRange n (h1 ! p))
      \<and> sorted (map (\<lambda>p. val (start (h1 ! p))) (current # rest))
      \<and> (\<forall>a. (\<exists>p \<in> set (current # rest). contains (h1 ! p) a)
             \<longleftrightarrow> (\<exists>r \<in> set ranges. coveredBy h r a))"
proof -
  from toRangeList_ok [of ranges n h "[]"] assms(2) obtain h1 ps where
    run: "toRangeList h ranges [] = Inr (h1, ps)"
    and len: "length ps = length ranges"
    and wf: "\<forall>p \<in> set ps. p < length h1 \<and> wfRange n (h1 ! p)"
    and cover: "\<forall>a. (\<exists>p \<in> set ps. contains (h1 ! p) a) \<longleftrightarrow> (\<exists>r \<in> set ranges. coveredBy h r a)"
    by auto
  let ?lt = "\<lambda>p q. bytes_Compare (start (h1 ! p)) (start (h1 ! q)) < 0"
  let ?key = "\<lambda>p. val (start (h1 ! p))"
  have lt: "\<forall>p \<in> set ps. \<forall>q \<in> set ps. ?lt p q \<longleftrightarrow> ?key p < ?key q"
    using wf by (simp add: Compare_less_iff wfRange_def)
  note s = sortsByLess_D [of srt ps ?lt ?key, OF assms(1) lt]
  from len assms(3) have "ps \<noteq> []" by auto
  with s(2) have "srt ?lt ps \<noteq> []" by auto
  then obtain current rest where cr: "srt ?lt ps = current # rest"
    by (cases "srt ?lt ps") auto
  have "MergeRanges srt h ranges =
      (case MergeRanges_loop h1 [] current rest of (h2, result) \<Rightarrow> Inr (h2, map RangePtr result))"
    using assms(3) run cr by (simp add: MergeRanges_def)
  moreover have "\<forall>p \<in> set (current # rest). p < length h1 \<and> wfRange n (h1 ! p)"
    using wf s(2) cr by auto
  moreover have "sorted (map ?key (current # rest))" using s(1) cr by simp
  moreover have "\<forall>a. (\<exists>p \<in> set (current # rest). contains (h1 ! p) a)
      \<longleftrightarrow> (\<exists>r \<in> set ranges. coveredBy h r a)"
    using cover s(2) cr by auto
  ultimately show ?thesis by blast
qed

lemma coveredBy_RangePtr: "coveredBy h (RangePtr p) a = contains (h ! p) a"
  by (simp add: coveredBy_def)

subsection \<open>Merging what is already merged\<close>

lemma loop_no_merge:
  "successively (\<lambda>a b. \<not> 0 \<le> bytes_Compare (addOne (end' (h ! a))) (start (h ! b)))
     (current # rest)
   \<Longrightarrow> MergeRanges_loop h result current rest = (h, result @ current # rest)"
  by (induction rest arbitrary: result current) simp_all

lemma toRangeList_ptrs: "toRangeList h (map RangePtr ps) acc = Inr (h, acc @ ps)"
  by (induction ps arbitrary: acc) simp_all

lemma loop_nonempty: "MergeRanges_loop h result current rest = (h', out) \<Longrightarrow> out \<noteq> []"
  by (induction h result current rest rule: MergeRanges_loop.induct) (auto split: if_splits)


text \<open>
  What the loop leaves: valid, well-formed intervals, sorted by start, and no interval
  passes the test of the loop against its successor.  A pointer already in \<open>result\<close> is
  never written again: either its interval ends at the top address, or it does not occur
  in the rest of the list.
\<close>

lemma loop_shape:
  assumes "\<forall>p \<in> set (result @ current # rest). p < length h \<and> wfRange n (h ! p)"
    and "sorted (map (\<lambda>p. val (start (h ! p))) (result @ current # rest))"
    and "successively (\<lambda>a b. \<not> 0 \<le> bytes_Compare (addOne (end' (h ! a))) (start (h ! b)))
           (result @ [current])"
    and "\<forall>p \<in> set result. Suc (val (end' (h ! p))) = 256 ^ n \<or> p \<notin> set (current # rest)"
    and "MergeRanges_loop h result current rest = (h', out)"
  shows "(\<forall>p \<in> set out. p < length h' \<and> wfRange n (h' ! p))
     \<and> sorted (map (\<lambda>p. val (start (h' ! p))) out)
     \<and> successively (\<lambda>a b. \<not> 0 \<le> bytes_Compare (addOne (end' (h' ! a))) (start (h' ! b))) out"
  using assms
proof (induction rest arbitrary: h result current)
  case Nil
  then show ?case by auto
next
  case (Cons nxt rest)
  let ?c = "h ! current" and ?x = "h ! nxt"
  let ?P = "\<lambda>h a b. \<not> 0 \<le> bytes_Compare (addOne (end' (h ! a))) (start (h ! b))"
  from Cons.prems(1) have wc: "wfRange n ?c" and wx: "wfRange n ?x"
    and vc: "current < length h" by simp_all
  have srt1: "sorted (map (\<lambda>p. val (start (h ! p))) (result @ current # rest))"
    using Cons.prems(2) by (auto simp add: sorted_append)
  show ?case
  proof (cases "0 \<le> bytes_Compare (addOne (end' ?c)) (start ?x)")
    case nomerge: False
    from Cons.prems(5) nomerge
    have run: "MergeRanges_loop h (result @ [current]) nxt rest = (h', out)" by simp
    have wf: "\<forall>p \<in> set ((result @ [current]) @ nxt # rest). p < length h \<and> wfRange n (h ! p)"
      using Cons.prems(1) by auto
    have srt: "sorted (map (\<lambda>p. val (start (h ! p))) ((result @ [current]) @ nxt # rest))"
      using Cons.prems(2) by simp
    have chain: "successively (?P h) ((result @ [current]) @ [nxt])"
      using Cons.prems(3) nomerge by (simp add: successively_append_iff)
    have frozen: "\<forall>p \<in> set (result @ [current]).
        Suc (val (end' (h ! p))) = 256 ^ n \<or> p \<notin> set (nxt # rest)"
    proof
      fix p assume p: "p \<in> set (result @ [current])"
      show "Suc (val (end' (h ! p))) = 256 ^ n \<or> p \<notin> set (nxt # rest)"
      proof (cases "p \<in> set result")
        case True
        with Cons.prems(4) show ?thesis by auto
      next
        case False
        with p have pc: "p = current" by simp
        show ?thesis
        proof (cases "Suc (val (end' ?c)) = 256 ^ n")
          case True
          with pc show ?thesis by simp
        next
          case False
          have "val (end' ?c) < 256 ^ n" using val_lt [of "end' ?c"] wc by (simp add: wfRange_def)
          with False have "Suc (val (end' ?c)) mod 256 ^ n = Suc (val (end' ?c))" by simp
          with nomerge have far: "Suc (val (end' ?c)) < val (start ?x)"
            using wc wx by (simp add: adjacent_test_val [of _ n] wfRange_def)
          have "q \<noteq> current" if "q \<in> set (nxt # rest)" for q
          proof -
            from Cons.prems(2) that have "val (start ?x) \<le> val (start (h ! q))"
              by (auto simp add: sorted_append)
            with far wc show ?thesis by (auto simp add: wfRange_def)
          qed
          with pc show ?thesis by blast
        qed
      qed
    qed
    from Cons.IH [OF wf srt chain frozen run] show ?thesis .
  next
    case merge: True
    show ?thesis
    proof (cases "bytes_Compare (end' ?c) (end' ?x) < 0")
      case False
      from Cons.prems(5) merge False
      have run: "MergeRanges_loop h result current rest = (h', out)" by simp
      have wf: "\<forall>p \<in> set (result @ current # rest). p < length h \<and> wfRange n (h ! p)"
        using Cons.prems(1) by auto
      have frozen: "\<forall>p \<in> set result. Suc (val (end' (h ! p))) = 256 ^ n \<or> p \<notin> set (current # rest)"
        using Cons.prems(4) by auto
      from Cons.IH [OF wf srt1 Cons.prems(3) frozen run] show ?thesis .
    next
      case True
      then have ee: "val (end' ?c) < val (end' ?x)"
        using wc wx by (simp add: Compare_less_iff wfRange_def)
      have "val (end' ?x) < 256 ^ n" using val_lt [of "end' ?x"] wx by (simp add: wfRange_def)
      with ee have notmax: "Suc (val (end' ?c)) \<noteq> 256 ^ n" by simp
      with Cons.prems(4) have fresh: "current \<notin> set result" by auto
      let ?h = "h[current := ?c\<lparr>end' := end' ?x\<rparr>]"
      from Cons.prems(5) merge True
      have run: "MergeRanges_loop ?h result current rest = (h', out)" by simp
      have other: "?h ! p = h ! p" if "p \<noteq> current" for p using that by simp
      have self: "?h ! current = ?c\<lparr>end' := end' ?x\<rparr>" using vc by simp
      have wnew: "wfRange n (?c\<lparr>end' := end' ?x\<rparr>)"
        using wc wx ee by (simp add: wfRange_def)
      have wf: "\<forall>p \<in> set (result @ current # rest). p < length ?h \<and> wfRange n (?h ! p)"
      proof
        fix p assume "p \<in> set (result @ current # rest)"
        with Cons.prems(1) have "p < length h" "wfRange n (h ! p)" by auto
        then show "p < length ?h \<and> wfRange n (?h ! p)"
          using wnew self other by (cases "p = current") simp_all
      qed
      have st: "start (?h ! p) = start (h ! p)" for p
        using self other by (cases "p = current") simp_all
      have srt: "sorted (map (\<lambda>p. val (start (?h ! p))) (result @ current # rest))"
        using srt1 by (simp only: st)
      have same: "?P ?h a b = ?P h a b" if "a \<in> set result" for a b
      proof -
        from that fresh have "a \<noteq> current" by auto
        then have "?h ! a = h ! a" by (rule other)
        then show ?thesis by (simp only: st)
      qed
      have chain: "successively (?P ?h) (result @ [current])"
      proof -
        from Cons.prems(3) have 1: "successively (?P h) result"
          and 2: "result = [] \<or> ?P h (last result) current"
          by (simp_all add: successively_append_iff)
        have "successively (?P ?h) result = successively (?P h) result"
          by (rule successively_cong) (simp_all only: same)
        with 1 have 3: "successively (?P ?h) result" by simp
        from 2 have 4: "result = [] \<or> ?P ?h (last result) current"
          using same [of "last result" current] by (cases "result = []") simp_all
        from 3 4 show ?thesis by (simp add: successively_append_iff)
      qed
      have frozen: "\<forall>p \<in> set result.
          Suc (val (end' (?h ! p))) = 256 ^ n \<or> p \<notin> set (current # rest)"
      proof
        fix p assume p: "p \<in> set result"
        with fresh have "p \<noteq> current" by auto
        then have "?h ! p = h ! p" by (rule other)
        with Cons.prems(4) p show "Suc (val (end' (?h ! p))) = 256 ^ n \<or> p \<notin> set (current # rest)"
          by auto
      qed
      from Cons.IH [OF wf srt chain frozen run] show ?thesis .
    qed
  qed
qed


section \<open>The examples of the README\<close>

text \<open>
  The three outputs the README shows, computed by the definitions above.  The first is
  \<^verbatim>\<open>CalculateIPv6CIDRRange("2001:200:141::", "2001:200:142:ffff:ffff:ffff:ffff:ffff")\<close>
  with its two blocks /48 and /47.  The second is \<^verbatim>\<open>NewRange\<close> of
  \<^verbatim>\<open>net.ParseIP("192.168.1.0")\<close> and \<^verbatim>\<open>net.ParseIP("192.168.1.255")\<close>: \<^verbatim>\<open>ParseIP\<close> gives the
  16-byte form of an IPv4 address, and the block has 120 of 128 bits, which prints as
  192.168.1.0/24.  The third merges 192.168.1.1 - 192.168.1.50,
  192.168.1.30 - 192.168.1.100 and 192.168.2.1 - 192.168.2.50 into two intervals; on three
  elements \<^verbatim>\<open>sort.Slice\<close> is the insertion sort.
\<close>

lemma README_IPv6_example:
  "ToIpNets \<lparr>start = [0x20, 0x01, 0x02, 0x00, 0x01, 0x41, 0, 0, 0, 0, 0, 0, 0, 0, 0, 0],
             end' = [0x20, 0x01, 0x02, 0x00, 0x01, 0x42, 0xff, 0xff, 0xff, 0xff, 0xff, 0xff,
                     0xff, 0xff, 0xff, 0xff]\<rparr> =
     Inr [\<lparr>IP = [0x20, 0x01, 0x02, 0x00, 0x01, 0x41, 0, 0, 0, 0, 0, 0, 0, 0, 0, 0],
           Mask = CIDRMask 48 128\<rparr>,
          \<lparr>IP = [0x20, 0x01, 0x02, 0x00, 0x01, 0x42, 0, 0, 0, 0, 0, 0, 0, 0, 0, 0],
           Mask = CIDRMask 47 128\<rparr>]"
  by code_simp

lemma README_IPv4_example:
  "ToIpNets \<lparr>start = [0, 0, 0, 0, 0, 0, 0, 0, 0, 0, 0xff, 0xff, 192, 168, 1, 0],
             end' = [0, 0, 0, 0, 0, 0, 0, 0, 0, 0, 0xff, 0xff, 192, 168, 1, 255]\<rparr> =
     Inr [\<lparr>IP = [0, 0, 0, 0, 0, 0, 0, 0, 0, 0, 0xff, 0xff, 192, 168, 1, 0],
           Mask = CIDRMask 120 128\<rparr>]"
  by code_simp

lemma README_merge_example:
  "MergeRanges insertionSort
               [\<lparr>start = [192, 168, 1, 1], end' = [192, 168, 1, 50]\<rparr>,
                \<lparr>start = [192, 168, 1, 30], end' = [192, 168, 1, 100]\<rparr>,
                \<lparr>start = [192, 168, 2, 1], end' = [192, 168, 2, 50]\<rparr>]
               [RangePtr 0, RangePtr 1, RangePtr 2] =
     Inr ([\<lparr>start = [192, 168, 1, 1], end' = [192, 168, 1, 100]\<rparr>,
           \<lparr>start = [192, 168, 1, 30], end' = [192, 168, 1, 100]\<rparr>,
           \<lparr>start = [192, 168, 2, 1], end' = [192, 168, 2, 50]\<rparr>],
          [RangePtr 0, RangePtr 2])"
  by code_simp

section \<open>Decomposition: what the code returns\<close>

text \<open>
  C1 (coverage of the decomposition).  The blocks returned for 10.0.0.5 - 10.0.0.9 are
  10.0.0.5/32, 10.0.0.6/31 and 10.0.0.8/30, and the last block ends at 10.0.0.11: the
  addresses 10.0.0.10 and 10.0.0.11 lie in a returned block and outside the interval.
  \<^verbatim>\<open>prefixLength\<close> counts the leading zero bits of \<^verbatim>\<open>addOne(end) XOR s\<close>; the boundary
  needs one bit more (the highest differing bit has to stay inside the prefix).
\<close>

theorem ToIpNets_overruns_end:
  "ToIpNets \<lparr>start = [10, 0, 0, 5], end' = [10, 0, 0, 9]\<rparr> =
     Inr [\<lparr>IP = [10, 0, 0, 5], Mask = [255, 255, 255, 255]\<rparr>,
          \<lparr>IP = [10, 0, 0, 6], Mask = [255, 255, 255, 254]\<rparr>,
          \<lparr>IP = [10, 0, 0, 8], Mask = [255, 255, 255, 252]\<rparr>]
   \<and> lastIp \<lparr>IP = [10, 0, 0, 8], Mask = [255, 255, 255, 252]\<rparr> = Inr [10, 0, 0, 11]
   \<and> contains \<lparr>start = [10, 0, 0, 8], end' = [10, 0, 0, 11]\<rparr> [10, 0, 0, 10]
   \<and> \<not> contains \<lparr>start = [10, 0, 0, 5], end' = [10, 0, 0, 9]\<rparr> [10, 0, 0, 10]"
  by code_simp

text \<open>
  C3 (single-address decomposition).  For the single even address 10.0.0.4 the code
  returns one block, but with prefix length 31 (mask 255.255.255.254), not 32: the
  block 10.0.0.4/31 also holds 10.0.0.5.
\<close>

theorem ToIpNets_single_even_address:
  "ToIpNets \<lparr>start = [10, 0, 0, 4], end' = [10, 0, 0, 4]\<rparr> =
     Inr [\<lparr>IP = [10, 0, 0, 4], Mask = CIDRMask 31 32\<rparr>]
   \<and> CIDRMask 31 32 = [255, 255, 255, 254]
   \<and> CIDRMask 32 32 = [255, 255, 255, 255]"
  by code_simp

text \<open>
  C4 (iteration bound).  For the whole IPv4 space 0.0.0.0 - 255.255.255.255 the loop
  runs 33 times, one more than the bit width 32: \<^verbatim>\<open>addOne(end)\<close> wraps to 0.0.0.0, the
  XOR with \<^verbatim>\<open>s\<close> is all zero, \<^verbatim>\<open>prefixLength\<close> answers 32 for it, and the first block
  is 0.0.0.0/32 instead of 0.0.0.0/0.
\<close>

theorem ToIpNets_whole_space_33_blocks:
  "(case ToIpNets \<lparr>start = [0, 0, 0, 0], end' = [255, 255, 255, 255]\<rparr> of
      Inl err \<Rightarrow> None
    | Inr nets \<Rightarrow> Some (length nets, hd nets))
   = Some (33, \<lparr>IP = [0, 0, 0, 0], Mask = [255, 255, 255, 255]\<rparr>)"
  by code_simp

text \<open>
  C6 (round trip of a network block).  The well-formed block 192.168.0.0/24 becomes the
  interval 192.168.0.0 - 192.168.0.255, and the decomposition of that interval is the
  one block 192.168.0.0/23, not the block the interval came from.
\<close>

theorem IpNet_round_trip_widens:
  "IpNetWrapper_ToRange \<lparr>IP = [192, 168, 0, 0], Mask = CIDRMask 24 32\<rparr> =
     Inr \<lparr>start = [192, 168, 0, 0], end' = [192, 168, 0, 255]\<rparr>
   \<and> ToIpNets \<lparr>start = [192, 168, 0, 0], end' = [192, 168, 0, 255]\<rparr> =
     Inr [\<lparr>IP = [192, 168, 0, 0], Mask = CIDRMask 23 32\<rparr>]
   \<and> CIDRMask 24 32 \<noteq> CIDRMask 23 32"
  by code_simp

text \<open>
  C7 (alignment).  For every interval of one family (both addresses 4 bytes, or both 16
  bytes) \<^verbatim>\<open>ToIpNets\<close> returns without a panic, and every block it returns is aligned:
  the mask is \<^verbatim>\<open>CIDRMask(p, bitWidth)\<close> for a prefix length \<open>p\<close> and the base address has
  its \<open>bitWidth - p\<close> low bits zero.  The order of \<open>s\<close> and \<open>e\<close> plays no part.
\<close>

theorem ToIpNets_blocks_aligned:
  assumes "length (start r) = length (end' r)"
    and "length (start r) = 4 \<or> length (start r) = 16"
  shows "\<exists>nets. ToIpNets r = Inr nets \<and> (\<forall>n \<in> set nets. alignedNet n)"
  unfolding ToIpNets_def
  using assms by (intro ToIpNets_loop_aligned) simp_all

theorem ToIpNets_blocks_aligned_witness:
  "length [10, 0, 0, 5 :: byte] = length [10, 0, 0, 9 :: byte]
   \<and> length [10, 0, 0, 5 :: byte] = 4
   \<and> (\<exists>nets. ToIpNets \<lparr>start = [10, 0, 0, 5], end' = [10, 0, 0, 9]\<rparr> = Inr nets
         \<and> list_all alignedNet nets)"
  using ToIpNets_blocks_aligned [of "\<lparr>start = [10, 0, 0, 5], end' = [10, 0, 0, 9]\<rparr>"]
  by (simp add: list_all_iff)

text \<open>
  C10 (inverted interval).  When \<open>s\<close> and \<open>e\<close> have the same length and \<open>s\<close> is above
  \<open>e\<close> in unsigned order, \<^verbatim>\<open>ToIpNets\<close> returns the empty list: no panic and no block.
\<close>

theorem ToIpNets_inverted_empty:
  assumes "length s = length e" and "val e < val s"
  shows "ToIpNets \<lparr>start = s, end' = e\<rparr> = Inr []"
proof -
  from assms have "0 < bytes_Compare s e" by (simp add: Compare_greater_iff)
  then show ?thesis by (simp add: ToIpNets_def ToIpNets_loop.simps)
qed

theorem ToIpNets_inverted_empty_witness:
  "length [10, 0, 0, 5 :: byte] = length [10, 0, 0, 4 :: byte]
   \<and> val [10, 0, 0, 4] < val [10, 0, 0, 5]
   \<and> ToIpNets \<lparr>start = [10, 0, 0, 5], end' = [10, 0, 0, 4]\<rparr> = Inr []"
proof -
  have l: "length [10, 0, 0, 5 :: byte] = length [10, 0, 0, 4 :: byte]" by simp
  have v: "val [10, 0, 0, 4] < val [10, 0, 0, 5]" by simp
  show ?thesis using l v ToIpNets_inverted_empty [OF l v] by simp
qed

section \<open>Merge: what the code returns\<close>

text \<open>
  C2 (shape of the merge output).  Merging the network 0.0.0.0/0, that is the interval
  0.0.0.0 - 255.255.255.255, with the single address 0.0.0.5 returns both intervals:
  \<^verbatim>\<open>addOne\<close> of 255.255.255.255 wraps to 0.0.0.0, which is below 0.0.0.5, so the test
  "overlapping or adjacent" fails although the second interval lies inside the first.
  The two output intervals are not disjoint: 0.0.0.5 lies in both.  On a slice of two
  elements \<^verbatim>\<open>sort.Slice\<close> is the insertion sort.
\<close>

theorem MergeRanges_overlapping_output:
  "MergeRanges insertionSort []
     [IpNetWrapper \<lparr>IP = [0, 0, 0, 0], Mask = [0, 0, 0, 0]\<rparr>, IpWrapper [0, 0, 0, 5]] =
     Inr ([\<lparr>start = [0, 0, 0, 0], end' = [255, 255, 255, 255]\<rparr>,
           \<lparr>start = [0, 0, 0, 5], end' = [0, 0, 0, 5]\<rparr>],
          [RangePtr 0, RangePtr 1])
   \<and> contains \<lparr>start = [0, 0, 0, 0], end' = [255, 255, 255, 255]\<rparr> [0, 0, 0, 5]
   \<and> contains \<lparr>start = [0, 0, 0, 5], end' = [0, 0, 0, 5]\<rparr> [0, 0, 0, 5]"
  by code_simp

text \<open>
  C5 (merge does not change its inputs).  Two \<^verbatim>\<open>*Range\<close> inputs, 0.0.0.1 - 0.0.0.5 at
  address 0 and 0.0.0.3 - 0.0.0.10 at address 1.  After the call the object at address 0,
  which the caller handed in, ends at 0.0.0.10: \<^verbatim>\<open>current\<close> is the caller's pointer and
  \<^verbatim>\<open>current.end = next.end\<close> writes through it.  On a slice of two elements
  \<^verbatim>\<open>sort.Slice\<close> is the insertion sort.
\<close>

theorem MergeRanges_writes_input_Range:
  "MergeRanges insertionSort
               [\<lparr>start = [0, 0, 0, 1], end' = [0, 0, 0, 5]\<rparr>,
                \<lparr>start = [0, 0, 0, 3], end' = [0, 0, 0, 10]\<rparr>]
               [RangePtr 0, RangePtr 1] =
     Inr ([\<lparr>start = [0, 0, 0, 1], end' = [0, 0, 0, 10]\<rparr>,
           \<lparr>start = [0, 0, 0, 3], end' = [0, 0, 0, 10]\<rparr>],
          [RangePtr 0])"
  by code_simp

text \<open>
  C8 (merge preserves the union).  For well-formed inputs of one family, and whatever
  order \<^verbatim>\<open>sort.Slice\<close> gives to equal starts, \<^verbatim>\<open>MergeRanges\<close> returns without a panic,
  and an address lies in one of the returned intervals, read in the heap the call leaves,
  exactly when it lies in one of the inputs, read in the heap the call started from and
  normalised by \<^verbatim>\<open>ToRange\<close>.  The empty input is included.
\<close>

theorem MergeRanges_preserves_union:
  assumes "sortsByLess srt" and "\<forall>r \<in> set ranges. wfInput n h r"
  shows "\<exists>h' out. MergeRanges srt h ranges = Inr (h', out)
      \<and> (\<forall>a. (\<exists>r \<in> set out. coveredBy h' r a) \<longleftrightarrow> (\<exists>r \<in> set ranges. coveredBy h r a))"
proof (cases "ranges = []")
  case True
  then show ?thesis by (simp add: MergeRanges_def)
next
  case False
  from MergeRanges_run [OF assms False] obtain h1 current rest where
    m: "MergeRanges srt h ranges =
        (case MergeRanges_loop h1 [] current rest of (h2, result) \<Rightarrow> Inr (h2, map RangePtr result))"
    and wf: "\<forall>p \<in> set (current # rest). p < length h1 \<and> wfRange n (h1 ! p)"
    and srt: "sorted (map (\<lambda>p. val (start (h1 ! p))) (current # rest))"
    and cover: "\<forall>a. (\<exists>p \<in> set (current # rest). contains (h1 ! p) a)
             \<longleftrightarrow> (\<exists>r \<in> set ranges. coveredBy h r a)"
    by blast
  obtain h2 result where loop: "MergeRanges_loop h1 [] current rest = (h2, result)"
    by (cases "MergeRanges_loop h1 [] current rest") auto
  have "(\<exists>r \<in> set (map RangePtr result). coveredBy h2 r a) \<longleftrightarrow> (\<exists>r \<in> set ranges. coveredBy h r a)"
    for a
  proof -
    have "(\<exists>p \<in> set result. contains (h2 ! p) a)
        \<longleftrightarrow> (\<exists>p \<in> set ([] @ current # rest). contains (h1 ! p) a)"
      using wf srt loop by (intro loop_cover [of _ _ _ _ n]) simp_all
    with cover show ?thesis by (simp add: coveredBy_RangePtr)
  qed
  with m loop show ?thesis by simp
qed

theorem MergeRanges_preserves_union_witness:
  "sortsByLess insertionSort
   \<and> list_all (wfInput 4 [\<lparr>start = [192, 168, 1, 1], end' = [192, 168, 1, 50]\<rparr>])
       [IpNetWrapper \<lparr>IP = [192, 168, 2, 0], Mask = [255, 255, 255, 0]\<rparr>,
        RangePtr 0, IpWrapper [192, 168, 1, 51]]
   \<and> (\<exists>h' out.
        MergeRanges insertionSort [\<lparr>start = [192, 168, 1, 1], end' = [192, 168, 1, 50]\<rparr>]
          [IpNetWrapper \<lparr>IP = [192, 168, 2, 0], Mask = [255, 255, 255, 0]\<rparr>,
           RangePtr 0, IpWrapper [192, 168, 1, 51]] = Inr (h', out)
        \<and> (\<forall>a. (\<exists>r \<in> set out. coveredBy h' r a)
              \<longleftrightarrow> (\<exists>r \<in> set [IpNetWrapper \<lparr>IP = [192, 168, 2, 0], Mask = [255, 255, 255, 0]\<rparr>,
                              RangePtr 0, IpWrapper [192, 168, 1, 51]].
                    coveredBy [\<lparr>start = [192, 168, 1, 1], end' = [192, 168, 1, 50]\<rparr>] r a)))"
proof -
  have wf: "\<forall>r \<in> set [IpNetWrapper \<lparr>IP = [192, 168, 2, 0], Mask = [255, 255, 255, 0]\<rparr>,
                        RangePtr 0, IpWrapper [192, 168, 1, 51]].
      wfInput 4 [\<lparr>start = [192, 168, 1, 1], end' = [192, 168, 1, 50]\<rparr>] r"
    by (simp add: wfRange_def)
  show ?thesis
    using sortsByLess_insertionSort wf
      MergeRanges_preserves_union [OF sortsByLess_insertionSort wf]
    by (simp only: list_all_iff)
qed

text \<open>
  C9 (merge is idempotent).  For well-formed inputs of one family, merging the output of
  \<^verbatim>\<open>MergeRanges\<close> again, in the heap the first call left, returns the very same list of
  intervals and writes nothing: the output is sorted by start, so the sort leaves it as
  it is, and no interval passes the test of the loop against its successor.  The sort
  is any function with the two properties of \<^verbatim>\<open>sort.Slice\<close>: it sorts by \<^verbatim>\<open>less\<close>, in
  whatever order of equal starts, and it returns an already sorted slice unchanged.
\<close>

theorem MergeRanges_idempotent:
  assumes "sortsByLess srt" and "keepsSorted srt"
    and "\<forall>r \<in> set ranges. wfInput n h r"
  shows "\<exists>h' out. MergeRanges srt h ranges = Inr (h', out)
      \<and> MergeRanges srt h' out = Inr (h', out)"
proof (cases "ranges = []")
  case True
  then show ?thesis by (simp add: MergeRanges_def)
next
  case False
  from MergeRanges_run [OF assms(1,3) False] obtain h1 current rest where
    m: "MergeRanges srt h ranges =
        (case MergeRanges_loop h1 [] current rest of (h2, result) \<Rightarrow> Inr (h2, map RangePtr result))"
    and wf: "\<forall>p \<in> set (current # rest). p < length h1 \<and> wfRange n (h1 ! p)"
    and srt: "sorted (map (\<lambda>p. val (start (h1 ! p))) (current # rest))"
    by blast
  obtain h2 result where loop: "MergeRanges_loop h1 [] current rest = (h2, result)"
    by (cases "MergeRanges_loop h1 [] current rest") auto
  with m have first: "MergeRanges srt h ranges = Inr (h2, map RangePtr result)" by simp
  let ?P = "\<lambda>a b. \<not> 0 \<le> bytes_Compare (addOne (end' (h2 ! a))) (start (h2 ! b))"
  let ?lt = "\<lambda>p q. bytes_Compare (start (h2 ! p)) (start (h2 ! q)) < 0"
  let ?key = "\<lambda>p. val (start (h2 ! p))"
  have "(\<forall>p \<in> set result. p < length h2 \<and> wfRange n (h2 ! p))
     \<and> sorted (map ?key result) \<and> successively ?P result"
    using wf srt loop by (intro loop_shape [of "[]" current rest h1 n]) simp_all
  then have wf2: "\<forall>p \<in> set result. p < length h2 \<and> wfRange n (h2 ! p)"
    and srt2: "sorted (map ?key result)" and chain: "successively ?P result"
    by simp_all
  from loop have ne: "result \<noteq> []" by (rule loop_nonempty)
  then obtain c r where cr: "result = c # r" by (cases result) auto
  have lt: "\<forall>p \<in> set result. \<forall>q \<in> set result. ?lt p q \<longleftrightarrow> ?key p < ?key q"
    using wf2 by (simp add: Compare_less_iff wfRange_def)
  have sorted_already: "srt ?lt result = result"
    using assms(2) lt srt2 by (rule keepsSorted_D)
  have again: "MergeRanges_loop h2 [] c r = (h2, [] @ c # r)"
    using chain unfolding cr by (rule loop_no_merge)
  have "MergeRanges srt h2 (map RangePtr result) = Inr (h2, map RangePtr result)"
    using ne by (simp add: MergeRanges_def toRangeList_ptrs sorted_already)
      (simp add: cr again)
  with first show ?thesis by blast
qed

theorem MergeRanges_idempotent_witness:
  "sortsByLess insertionSort \<and> keepsSorted insertionSort
   \<and> list_all (wfInput 4 [\<lparr>start = [192, 168, 1, 30], end' = [192, 168, 1, 100]\<rparr>,
                          \<lparr>start = [192, 168, 2, 1], end' = [192, 168, 2, 50]\<rparr>,
                          \<lparr>start = [192, 168, 1, 1], end' = [192, 168, 1, 50]\<rparr>])
       [RangePtr 0, RangePtr 1, RangePtr 2]
   \<and> (\<exists>h' out.
        MergeRanges insertionSort
          [\<lparr>start = [192, 168, 1, 30], end' = [192, 168, 1, 100]\<rparr>,
           \<lparr>start = [192, 168, 2, 1], end' = [192, 168, 2, 50]\<rparr>,
           \<lparr>start = [192, 168, 1, 1], end' = [192, 168, 1, 50]\<rparr>]
          [RangePtr 0, RangePtr 1, RangePtr 2] = Inr (h', out)
        \<and> MergeRanges insertionSort h' out = Inr (h', out))"
proof -
  have wf: "\<forall>r \<in> set [RangePtr 0, RangePtr 1, RangePtr 2].
      wfInput 4 [\<lparr>start = [192, 168, 1, 30], end' = [192, 168, 1, 100]\<rparr>,
                 \<lparr>start = [192, 168, 2, 1], end' = [192, 168, 2, 50]\<rparr>,
                 \<lparr>start = [192, 168, 1, 1], end' = [192, 168, 1, 50]\<rparr>] r"
    by (simp add: wfRange_def)
  show ?thesis
    using sortsByLess_insertionSort keepsSorted_insertionSort wf
      MergeRanges_idempotent [OF sortsByLess_insertionSort keepsSorted_insertionSort wf]
    by (simp only: list_all_iff)
qed

end
